theory Spec2Isabelle
  imports Complex_Main "HOL-Library.Multiset"
begin

section \<open>Conventions\<close>

text \<open>
  The development embeds the two framework-free scripts of the repository,
  \<^verbatim>\<open>scripts/evaluate.py\<close> and \<^verbatim>\<open>scripts/postprocess.py\<close>.
  Python \<^verbatim>\<open>int\<close> is \<^typ>\<open>int\<close>; Python \<^verbatim>\<open>float\<close> is read as an exact
  \<^typ>\<open>real\<close>, without rounding; the one NaN the code can produce, the mean of an
  empty list, is written \<open>None\<close>. \<^verbatim>\<open>str\<close> is \<^typ>\<open>string\<close>.
  Exceptions are values of \<open>py_error\<close> on the left of a sum.
\<close>

datatype py_error = IndexError | KeyError | ValueError string

section \<open>Detection evaluation (\<^verbatim>\<open>scripts/evaluate.py\<close>)\<close>

subsection \<open>Data\<close>

text \<open>A box is the four-element list \<^verbatim>\<open>[x1, y1, x2, y2]\<close> that \<^verbatim>\<open>calculate_iou\<close> unpacks.\<close>

type_synonym box = "int \<times> int \<times> int \<times> int"

text \<open>
  A prediction dict has the key \<^verbatim>\<open>'box'\<close> and, optionally, \<^verbatim>\<open>'confidence'\<close>
  (read with \<^verbatim>\<open>x.get('confidence', 0)\<close>); a ground-truth dict has the key \<^verbatim>\<open>'box'\<close>.
\<close>

record prediction =
  pred_box :: box
  pred_confidence :: "real option"

record ground_truth =
  gt_box :: box

record det_counts =
  num_predictions :: nat
  num_ground_truths :: nat
  true_positives :: int
  false_positives :: int
  false_negatives :: int

text \<open>
  The returned dict: the four metrics are always present, the five counters only on
  the main path (the three early returns leave them out).
\<close>

record det_result =
  precision :: real
  recall :: real
  ap :: real
  f1 :: real
  counts :: "det_counts option"

subsection \<open>\<^verbatim>\<open>calculate_iou\<close>\<close>

definition calculate_iou :: "box \<Rightarrow> box \<Rightarrow> real" where
  "calculate_iou box1 box2 =
     (case box1 of (x1_1, y1_1, x2_1, y2_1) \<Rightarrow>
      case box2 of (x1_2, y1_2, x2_2, y2_2) \<Rightarrow>
        let x1_i = max x1_1 x1_2;
            y1_i = max y1_1 y1_2;
            x2_i = min x2_1 x2_2;
            y2_i = min y2_1 y2_2
        in if x2_i \<le> x1_i \<or> y2_i \<le> y1_i then 0
           else
             let intersection = (x2_i - x1_i) * (y2_i - y1_i);
                 area1 = (x2_1 - x1_1) * (y2_1 - y1_1);
                 area2 = (x2_2 - x1_2) * (y2_2 - y1_2);
                 union = area1 + area2 - intersection
             in if union > 0 then real_of_int intersection / real_of_int union else 0)"

subsection \<open>\<^verbatim>\<open>calculate_ap\<close>\<close>

text \<open>
  The loop \<^verbatim>\<open>for i in range(len(precisions) - 2, -1, -1)\<close> overwrites
  \<^verbatim>\<open>precisions[i]\<close> with the maximum of itself and its right neighbour.
\<close>

definition envelope_step :: "nat \<Rightarrow> real list \<Rightarrow> real list" where
  "envelope_step i ps = ps[i := max (ps ! i) (ps ! (i + 1))]"

definition monotone_envelope :: "real list \<Rightarrow> real list" where
  "monotone_envelope ps = fold envelope_step (rev [0..<length ps - 1]) ps"

text \<open>
  The loop \<^verbatim>\<open>for i in range(1, len(recalls))\<close> adds
  \<^verbatim>\<open>(recalls[i] - recalls[i-1]) * precisions[i]\<close> where the recall changes. Its one
  caller passes two lists of the same length, so every index is in range.
\<close>

definition ap_step :: "real list \<Rightarrow> real list \<Rightarrow> nat \<Rightarrow> real \<Rightarrow> real" where
  "ap_step ps rs i acc =
     (if rs ! i \<noteq> rs ! (i - 1) then acc + (rs ! i - rs ! (i - 1)) * ps ! i else acc)"

definition calculate_ap :: "real list \<Rightarrow> real list \<Rightarrow> real" where
  "calculate_ap precisions recalls =
     (let ps = monotone_envelope ([0] @ precisions @ [0]);
          rs = [0] @ recalls @ [1]
      in fold (ap_step ps rs) [1..<length rs] 0)"

subsection \<open>\<^verbatim>\<open>evaluate_detection\<close>\<close>

text \<open>Python item assignment \<^verbatim>\<open>xs[i] = v\<close>: a negative index counts from the end.\<close>

definition py_setitem :: "'a list \<Rightarrow> int \<Rightarrow> 'a \<Rightarrow> py_error + 'a list" where
  "py_setitem xs i v =
     (let n = int (length xs); j = (if i < 0 then n + i else i)
      in if 0 \<le> j \<and> j < n then Inr (xs[nat j := v]) else Inl IndexError)"

text \<open>
  The inner loop over \<^verbatim>\<open>enumerate(ground_truths)\<close>: matched ground truths are
  skipped, and a strictly larger IoU replaces the best one seen so far.
\<close>

fun find_best :: "box \<Rightarrow> bool list \<Rightarrow> (nat \<times> ground_truth) list \<Rightarrow> real \<times> int \<Rightarrow> real \<times> int" where
  "find_best pb gt_matched [] best = best"
| "find_best pb gt_matched ((gt_idx, gt) # rest) (best_iou, best_gt_idx) =
     (if gt_matched ! gt_idx then find_best pb gt_matched rest (best_iou, best_gt_idx)
      else
        let iou = calculate_iou pb (gt_box gt)
        in if iou > best_iou then find_best pb gt_matched rest (iou, int gt_idx)
           else find_best pb gt_matched rest (best_iou, best_gt_idx))"

text \<open>
  The outer loop over the sorted predictions. The state is
  \<^verbatim>\<open>(gt_matched, tp, fp)\<close>; \<^verbatim>\<open>best_iou\<close> starts at \<^verbatim>\<open>0.0\<close> and
  \<^verbatim>\<open>best_gt_idx\<close> at \<^verbatim>\<open>-1\<close> for every prediction.
\<close>

fun match_loop ::
  "real \<Rightarrow> ground_truth list \<Rightarrow> prediction list \<Rightarrow> bool list \<times> nat list \<times> nat list
     \<Rightarrow> py_error + (bool list \<times> nat list \<times> nat list)" where
  "match_loop iou_threshold gts [] st = Inr st"
| "match_loop iou_threshold gts (pred # preds) (gt_matched, tp, fp) =
     (case find_best (pred_box pred) gt_matched (enumerate 0 gts) (0, - 1) of
        (best_iou, best_gt_idx) \<Rightarrow>
          if best_iou \<ge> iou_threshold then
            (case py_setitem gt_matched best_gt_idx True of
               Inl e \<Rightarrow> Inl e
             | Inr gt_matched' \<Rightarrow>
                 match_loop iou_threshold gts preds (gt_matched', tp @ [1], fp @ [0]))
          else match_loop iou_threshold gts preds (gt_matched, tp @ [0], fp @ [1]))"

text \<open>
  \<^verbatim>\<open>np.cumsum\<close>: the list of prefix sums. Every prediction adds one to exactly one
  of \<^verbatim>\<open>tp\<close> and \<^verbatim>\<open>fp\<close>, so \<^verbatim>\<open>tp_cumsum + fp_cumsum\<close> is positive at every
  position and the division for the precisions is never by zero.
\<close>

fun cumsum_from :: "nat \<Rightarrow> nat list \<Rightarrow> nat list" where
  "cumsum_from acc [] = []"
| "cumsum_from acc (x # xs) = (acc + x) # cumsum_from (acc + x) xs"

definition cumsum :: "nat list \<Rightarrow> nat list" where
  "cumsum xs = cumsum_from 0 xs"

definition confidence_key :: "prediction \<Rightarrow> real" where
  "confidence_key x = (case pred_confidence x of None \<Rightarrow> 0 | Some c \<Rightarrow> c)"

text \<open>
  \<^verbatim>\<open>sorted(predictions, key=..., reverse=True)\<close> is a stable sort by descending
  key: predictions of equal confidence keep their order, which is what the stable
  \<^const>\<open>sort_key\<close> does on the negated key.
\<close>

definition sorted_preds_of :: "prediction list \<Rightarrow> prediction list" where
  "sorted_preds_of predictions = sort_key (\<lambda>x. - confidence_key x) predictions"

definition metrics_only :: "real \<Rightarrow> det_result" where
  "metrics_only v = \<lparr>precision = v, recall = v, ap = v, f1 = v, counts = None\<rparr>"

definition evaluate_detection ::
  "prediction list \<Rightarrow> ground_truth list \<Rightarrow> real \<Rightarrow> py_error + det_result" where
  "evaluate_detection predictions ground_truths iou_threshold =
     (if predictions = [] \<and> ground_truths = [] then Inr (metrics_only 1)
      else if predictions = [] then Inr (metrics_only 0)
      else if ground_truths = [] then Inr (metrics_only 0)
      else
        let sorted_preds = sorted_preds_of predictions;
            num_gt = length ground_truths
        in case match_loop iou_threshold ground_truths sorted_preds
                  (replicate num_gt False, [], []) of
             Inl e \<Rightarrow> Inl e
           | Inr (gt_matched, tp, fp) \<Rightarrow>
               let tp_cumsum = cumsum tp;
                   fp_cumsum = cumsum fp;
                   precisions = map (\<lambda>(t, f). real t / real (t + f)) (zip tp_cumsum fp_cumsum);
                   recalls = map (\<lambda>t. real t / real num_gt) tp_cumsum;
                   ap_value = calculate_ap precisions recalls;
                   final_precision = (if length precisions > 0 then last precisions else 0);
                   final_recall = (if length recalls > 0 then last recalls else 0);
                   f1_value = (if final_precision + final_recall > 0
                               then 2 * final_precision * final_recall / (final_precision + final_recall)
                               else 0)
               in Inr \<lparr>precision = final_precision, recall = final_recall,
                       ap = ap_value, f1 = f1_value,
                       counts = Some \<lparr>num_predictions = length predictions,
                                      num_ground_truths = num_gt,
                                      true_positives = int (sum_list tp),
                                      false_positives = int (sum_list fp),
                                      false_negatives = int num_gt - int (sum_list tp)\<rparr>\<rparr>)"

subsection \<open>\<^verbatim>\<open>calculate_map\<close>\<close>

text \<open>
  The per-threshold values are stored in a dict under a label: the text \<^verbatim>\<open>AP@\<close>
  followed by the threshold in the format \<^verbatim>\<open>.2f\<close>, which prints the value rounded
  to two decimals, ties to even, with a minus sign for a negative value.
\<close>

definition round_half_even :: "real \<Rightarrow> int" where
  "round_half_even x =
     (let f = \<lfloor>x\<rfloor>; d = x - real_of_int f
      in if d < 1/2 then f else if d > 1/2 then f + 1 else if even f then f else f + 1)"

definition digit_char :: "nat \<Rightarrow> char" where
  "digit_char d = char_of (48 + d)"

function str_nat :: "nat \<Rightarrow> string" where
  "str_nat n = (if n < 10 then [digit_char n] else str_nat (n div 10) @ [digit_char (n mod 10)])"
  by pat_completeness auto
termination
  by (relation "measure (\<lambda>n. n)") auto

definition format_2f :: "real \<Rightarrow> string" where
  "format_2f t =
     (let n = nat (round_half_even (\<bar>t\<bar> * 100))
      in (if t < 0 then ''-'' else []) @ str_nat (n div 100) @ ''.''
           @ [digit_char (n mod 100 div 10), digit_char (n mod 10)])"

definition ap_label :: "real \<Rightarrow> string" where
  "ap_label t = ''AP@'' @ format_2f t"

definition default_iou_thresholds :: "real list" where
  "default_iou_thresholds =
     [5/10, 55/100, 6/10, 65/100, 7/10, 75/100, 8/10, 85/100, 9/10, 95/100]"

text \<open>
  The loop \<^verbatim>\<open>for iou_thresh in iou_thresholds\<close>, which stores
  \<^verbatim>\<open>result['ap']\<close> under the label of the threshold.
\<close>

fun ap_loop ::
  "prediction list \<Rightarrow> ground_truth list \<Rightarrow> real list \<Rightarrow> (string \<rightharpoonup> real)
     \<Rightarrow> py_error + (string \<rightharpoonup> real)" where
  "ap_loop all_preds all_gts [] aps = Inr aps"
| "ap_loop all_preds all_gts (iou_thresh # rest) aps =
     (case evaluate_detection all_preds all_gts iou_thresh of
        Inl e \<Rightarrow> Inl e
      | Inr result \<Rightarrow> ap_loop all_preds all_gts rest (aps(ap_label iou_thresh \<mapsto> ap result)))"

text \<open>\<^verbatim>\<open>np.mean\<close>: the mean of an empty list is NaN, written \<open>None\<close>.\<close>

definition np_mean :: "real list \<Rightarrow> real option" where
  "np_mean xs = (if xs = [] then None else Some (sum_list xs / real (length xs)))"

record map_result =
  mAP_50 :: real
  mAP_50_95 :: "real option"
  AP_per_threshold :: "string \<rightharpoonup> real"

text \<open>The argument \<^verbatim>\<open>iou_thresholds\<close> is \<^verbatim>\<open>None\<close> by default and then replaced.\<close>

definition thresholds_of :: "real list option \<Rightarrow> real list" where
  "thresholds_of iou_thresholds_opt =
     (case iou_thresholds_opt of None \<Rightarrow> default_iou_thresholds | Some ts \<Rightarrow> ts)"

text \<open>
  \<^verbatim>\<open>aps.get('AP@0.50', 0.0)\<close> is the lookup with default;
  the list comprehension over \<^verbatim>\<open>iou_thresholds\<close> reads the dict again under the
  label of each threshold, and would raise on a missing key.
\<close>

definition calculate_map ::
  "prediction list list \<Rightarrow> ground_truth list list \<Rightarrow> real list option
     \<Rightarrow> py_error + map_result" where
  "calculate_map all_predictions all_ground_truths iou_thresholds_opt =
     (let iou_thresholds = thresholds_of iou_thresholds_opt;
          all_preds = concat all_predictions;
          all_gts = concat all_ground_truths
      in case ap_loop all_preds all_gts iou_thresholds Map.empty of
           Inl e \<Rightarrow> Inl e
         | Inr aps \<Rightarrow>
             let map_50 = (case aps ''AP@0.50'' of None \<Rightarrow> 0 | Some v \<Rightarrow> v)
             in case those (map (\<lambda>t. aps (ap_label t)) iou_thresholds) of
                  None \<Rightarrow> Inl KeyError
                | Some vs \<Rightarrow>
                    Inr \<lparr>mAP_50 = map_50, mAP_50_95 = np_mean vs, AP_per_threshold = aps\<rparr>)"

subsection \<open>\<^verbatim>\<open>calculate_cer\<close>, \<^verbatim>\<open>calculate_wer\<close>\<close>

text \<open>
  Modelled from the spec: \<^verbatim>\<open>editdistance.eval\<close> belongs to the third-party package
  \<^verbatim>\<open>editdistance\<close>, which is not part of the repository; the spec describes it as the
  Levenshtein edit distance with unit cost for substitution, insertion and deletion.
\<close>

fun editdistance_eval :: "'a list \<Rightarrow> 'a list \<Rightarrow> nat" where
  "editdistance_eval [] ys = length ys"
| "editdistance_eval (x # xs) [] = length (x # xs)"
| "editdistance_eval (x # xs) (y # ys) =
     min (min (editdistance_eval xs (y # ys) + 1) (editdistance_eval (x # xs) ys + 1))
         (editdistance_eval xs ys + (if x = y then 0 else 1))"

text \<open>
  What the distance measures: \<open>edits xs ys n\<close> holds when \<open>xs\<close> is turned into \<open>ys\<close>
  by a script of \<open>n\<close> substitutions, deletions and insertions of single elements.
\<close>

inductive edits :: "'a list \<Rightarrow> 'a list \<Rightarrow> nat \<Rightarrow> bool" where
  edits_nil: "edits [] [] 0"
| edits_keep: "edits xs ys n \<Longrightarrow> edits (x # xs) (x # ys) n"
| edits_substitute: "edits xs ys n \<Longrightarrow> edits (x # xs) (y # ys) (Suc n)"
| edits_delete: "edits xs ys n \<Longrightarrow> edits (x # xs) ys (Suc n)"
| edits_insert: "edits xs ys n \<Longrightarrow> edits xs (y # ys) (Suc n)"

definition calculate_cer :: "string \<Rightarrow> string \<Rightarrow> real" where
  "calculate_cer prediction_text ground_truth_text =
     (if ground_truth_text = [] then (if prediction_text = [] then 0 else 1)
      else real (editdistance_eval prediction_text ground_truth_text)
             / real (length ground_truth_text))"

text \<open>
  \<^verbatim>\<open>str.split()\<close> without arguments: the maximal runs of non-whitespace characters.
  For one-byte characters the whitespace code points are 9 to 13, 28 to 32, 133 and 160.
\<close>

definition is_space :: "char \<Rightarrow> bool" where
  "is_space c = (let k = (of_char c :: nat)
                 in (9 \<le> k \<and> k \<le> 13) \<or> (28 \<le> k \<and> k \<le> 32) \<or> k = 133 \<or> k = 160)"

fun split_from :: "string \<Rightarrow> string \<Rightarrow> string list" where
  "split_from word [] = (if word = [] then [] else [word])"
| "split_from word (c # cs) =
     (if is_space c then (if word = [] then split_from [] cs else word # split_from [] cs)
      else split_from (word @ [c]) cs)"

definition py_split :: "string \<Rightarrow> string list" where
  "py_split s = split_from [] s"

text \<open>
  \<^verbatim>\<open>calculate_wer\<close> first tries the third-party \<^verbatim>\<open>jiwer.wer\<close>, which is not part of
  the repository and is taken as a parameter: it yields \<open>None\<close> where the import or the
  call raises, and then the bare \<^verbatim>\<open>except:\<close> runs the fallback.
\<close>

definition calculate_wer :: "(string \<Rightarrow> string \<Rightarrow> real option) \<Rightarrow> string \<Rightarrow> string \<Rightarrow> real" where
  "calculate_wer jiwer_wer prediction_text ground_truth_text =
     (case jiwer_wer ground_truth_text prediction_text of
        Some w \<Rightarrow> w
      | None \<Rightarrow>
          let pred_words = py_split prediction_text;
              gt_words = py_split ground_truth_text
          in if gt_words = [] then (if pred_words = [] then 0 else 1)
             else real (editdistance_eval pred_words gt_words) / real (length gt_words))"

subsection \<open>\<^verbatim>\<open>evaluate_ocr\<close>\<close>

record ocr_sample =
  sample_CER :: real
  sample_WER :: real
  sample_prediction :: string
  sample_ground_truth :: string

record ocr_detail =
  CER_std :: real
  WER_std :: real
  per_sample :: "ocr_sample list"

text \<open>
  The returned dict: \<^verbatim>\<open>CER\<close>, \<^verbatim>\<open>WER\<close> and \<^verbatim>\<open>num_samples\<close> are always
  present, the other keys only for a non-empty input.
\<close>

record ocr_result =
  CER :: real
  WER :: real
  num_samples :: nat
  detail :: "ocr_detail option"

definition mean :: "real list \<Rightarrow> real" where
  "mean xs = sum_list xs / real (length xs)"

text \<open>\<^verbatim>\<open>np.std\<close>: the population standard deviation.\<close>

definition np_std :: "real list \<Rightarrow> real" where
  "np_std xs = sqrt (mean (map (\<lambda>x. (x - mean xs)\<^sup>2) xs))"

definition evaluate_ocr ::
  "(string \<Rightarrow> string \<Rightarrow> real option) \<Rightarrow> string list \<Rightarrow> string list \<Rightarrow> py_error + ocr_result" where
  "evaluate_ocr jiwer_wer predictions ground_truths =
     (if length predictions \<noteq> length ground_truths
      then Inl (ValueError ''Predictions and ground truths must have same length'')
      else if predictions = [] then Inr \<lparr>CER = 0, WER = 0, num_samples = 0, detail = None\<rparr>
      else
        let cers = map (\<lambda>(pred, gt). calculate_cer pred gt) (zip predictions ground_truths);
            wers = map (\<lambda>(pred, gt). calculate_wer jiwer_wer pred gt) (zip predictions ground_truths)
        in Inr \<lparr>CER = mean cers, WER = mean wers, num_samples = length predictions,
                detail = Some \<lparr>CER_std = np_std cers, WER_std = np_std wers,
                               per_sample = map (\<lambda>(c, w, p, g).
                                   \<lparr>sample_CER = c, sample_WER = w,
                                    sample_prediction = p, sample_ground_truth = g\<rparr>)
                                 (zip cers (zip wers (zip predictions ground_truths)))\<rparr>\<rparr>)"

section \<open>Layout reconstruction (\<^verbatim>\<open>scripts/postprocess.py\<close>)\<close>

subsection \<open>\<^verbatim>\<open>DetectionBox\<close>\<close>

text \<open>The dataclass; its field \<^verbatim>\<open>id\<close> is called \<open>box_id\<close> here.\<close>

record DetectionBox =
  box_id :: int
  x1 :: int
  y1 :: int
  x2 :: int
  y2 :: int
  confidence :: real
  ocr_text :: string
  ocr_confidence :: real
  line_id :: int

definition center_x :: "DetectionBox \<Rightarrow> real" where
  "center_x self = real_of_int (x1 self + x2 self) / 2"

definition center_y :: "DetectionBox \<Rightarrow> real" where
  "center_y self = real_of_int (y1 self + y2 self) / 2"

definition width :: "DetectionBox \<Rightarrow> int" where
  "width self = x2 self - x1 self"

definition height :: "DetectionBox \<Rightarrow> int" where
  "height self = y2 self - y1 self"

definition vertical_overlap :: "DetectionBox \<Rightarrow> DetectionBox \<Rightarrow> real" where
  "vertical_overlap self other =
     (let y_overlap = max 0 (min (y2 self) (y2 other) - max (y1 self) (y1 other));
          min_height = min (height self) (height other)
      in if min_height > 0 then real_of_int y_overlap / real_of_int min_height else 0)"

subsection \<open>\<^verbatim>\<open>parse_detections\<close>\<close>

text \<open>
  A detection dict: every key is optional and read with \<^verbatim>\<open>det.get\<close>. The default
  of \<^verbatim>\<open>'box'\<close> is \<^verbatim>\<open>[0, 0, 0, 0]\<close>, the default of \<^verbatim>\<open>'id'\<close> is the number of
  boxes built so far. Reading \<^verbatim>\<open>box_coords[0..3]\<close> raises on a shorter list.
\<close>

record detection =
  det_id :: "int option"
  det_box :: "int list option"
  det_confidence :: "real option"
  det_ocr_text :: "string option"
  det_ocr_confidence :: "real option"

definition get_default :: "'a option \<Rightarrow> 'a \<Rightarrow> 'a" where
  "get_default v d = (case v of None \<Rightarrow> d | Some x \<Rightarrow> x)"

fun parse_loop :: "detection list \<Rightarrow> DetectionBox list \<Rightarrow> py_error + DetectionBox list" where
  "parse_loop [] boxes = Inr boxes"
| "parse_loop (det # detections) boxes =
     (let box_coords = get_default (det_box det) [0, 0, 0, 0]
      in if length box_coords < 4 then Inl IndexError
         else parse_loop detections
                (boxes @ [\<lparr>box_id = get_default (det_id det) (int (length boxes)),
                           x1 = box_coords ! 0,
                           y1 = box_coords ! 1,
                           x2 = box_coords ! 2,
                           y2 = box_coords ! 3,
                           confidence = get_default (det_confidence det) 0,
                           ocr_text = get_default (det_ocr_text det) [],
                           ocr_confidence = get_default (det_ocr_confidence det) 0,
                           line_id = - 1\<rparr>]))"

text \<open>
  The argument is the entry \<^verbatim>\<open>'detections'\<close> of the dict \<^verbatim>\<open>data\<close>, \<open>None\<close> when
  the key is absent: \<^verbatim>\<open>data.get('detections', [])\<close>.
\<close>

definition parse_detections :: "detection list option \<Rightarrow> py_error + DetectionBox list" where
  "parse_detections data_detections = parse_loop (get_default data_detections []) []"

subsection \<open>\<^verbatim>\<open>group_into_lines\<close>\<close>

text \<open>
  The boxes are objects: the lines returned hold the very objects of the input list, and
  the last loop writes their \<^verbatim>\<open>line_id\<close> in place. The model keeps the objects in a
  store and passes references around.
\<close>

type_synonym ref = nat

type_synonym store = "ref \<Rightarrow> DetectionBox"

text \<open>
  The loop \<^verbatim>\<open>for line_box in current_line\<close>, which stops at the first box of the
  line that overlaps \<^verbatim>\<open>other\<close> enough.
\<close>

fun overlaps_line :: "store \<Rightarrow> real \<Rightarrow> ref \<Rightarrow> ref list \<Rightarrow> bool" where
  "overlaps_line h y_overlap_threshold other [] = False"
| "overlaps_line h y_overlap_threshold other (line_box # rest) =
     (if vertical_overlap (h line_box) (h other) \<ge> y_overlap_threshold then True
      else overlaps_line h y_overlap_threshold other rest)"

text \<open>The loop \<^verbatim>\<open>for other in sorted_boxes\<close>, on the state \<^verbatim>\<open>(current_line, used)\<close>.\<close>

fun collect_line :: "store \<Rightarrow> real \<Rightarrow> ref list \<Rightarrow> ref list \<times> int set \<Rightarrow> ref list \<times> int set" where
  "collect_line h y_overlap_threshold [] st = st"
| "collect_line h y_overlap_threshold (other # rest) (current_line, used) =
     (if box_id (h other) \<in> used then collect_line h y_overlap_threshold rest (current_line, used)
      else if overlaps_line h y_overlap_threshold other current_line
      then collect_line h y_overlap_threshold rest
             (current_line @ [other], insert (box_id (h other)) used)
      else collect_line h y_overlap_threshold rest (current_line, used))"

text \<open>The loop \<^verbatim>\<open>for box in sorted_boxes\<close>, on the state \<^verbatim>\<open>(lines, used)\<close>.\<close>

fun build_lines ::
  "store \<Rightarrow> real \<Rightarrow> ref list \<Rightarrow> ref list \<Rightarrow> ref list list \<times> int set \<Rightarrow> ref list list \<times> int set" where
  "build_lines h y_overlap_threshold sorted_boxes [] st = st"
| "build_lines h y_overlap_threshold sorted_boxes (box # rest) (lines, used) =
     (if box_id (h box) \<in> used
      then build_lines h y_overlap_threshold sorted_boxes rest (lines, used)
      else
        case collect_line h y_overlap_threshold sorted_boxes
               ([box], insert (box_id (h box)) used) of
          (current_line, used') \<Rightarrow>
            build_lines h y_overlap_threshold sorted_boxes rest
              (lines @ [sort_key (\<lambda>b. center_x (h b)) current_line], used'))"

definition line_mean_y :: "store \<Rightarrow> ref list \<Rightarrow> real" where
  "line_mean_y h line = sum_list (map (\<lambda>b. center_y (h b)) line) / real (length line)"

text \<open>The loops that assign \<^verbatim>\<open>box.line_id = line_id\<close> over \<^verbatim>\<open>enumerate(lines)\<close>.\<close>

fun assign_line :: "int \<Rightarrow> ref list \<Rightarrow> store \<Rightarrow> store" where
  "assign_line k [] h = h"
| "assign_line k (box # rest) h = assign_line k rest (h(box := (h box)\<lparr>line_id := k\<rparr>))"

fun assign_lines :: "(nat \<times> ref list) list \<Rightarrow> store \<Rightarrow> store" where
  "assign_lines [] h = h"
| "assign_lines ((k, line) # rest) h = assign_lines rest (assign_line (int k) line h)"

text \<open>
  Both \<^verbatim>\<open>sorted\<close> and \<^verbatim>\<open>list.sort\<close> are stable, as \<^const>\<open>sort_key\<close> is. The result
  is the list of lines and the store after the assignment of the line ids.
\<close>

definition group_into_lines :: "store \<Rightarrow> ref list \<Rightarrow> real \<Rightarrow> ref list list \<times> store" where
  "group_into_lines h boxes y_overlap_threshold =
     (if boxes = [] then ([], h)
      else
        let sorted_boxes = sort_key (\<lambda>b. center_y (h b)) boxes
        in case build_lines h y_overlap_threshold sorted_boxes sorted_boxes ([], {}) of
             (lines, used) \<Rightarrow>
               let lines' = sort_key (line_mean_y h) lines
               in (lines', assign_lines (enumerate 0 lines') h))"

subsection \<open>\<^verbatim>\<open>merge_line_text\<close>\<close>





section \<open>Scenarios\<close>

text \<open>
  \<^verbatim>\<open>postprocess_detections\<close> hands the objects built by \<^verbatim>\<open>parse_detections\<close> to
  \<^verbatim>\<open>group_into_lines\<close>; in the model they are stored at the references
  \<open>0, 1, \<dots>\<close> in the order of the list.
\<close>

definition allocate :: "DetectionBox list \<Rightarrow> store \<times> ref list" where
  "allocate bs = ((\<lambda>r. bs ! r), [0..<length bs])"

text \<open>
  The boxes \<open>A = [0, 0, 50, 20]\<close> and \<open>B = [60, 2, 110, 22]\<close> of the specification,
  and a box \<open>Z = [5, 100, 5, 100]\<close> of width and height zero.
\<close>

definition det_A :: detection where
  "det_A = \<lparr>det_id = Some 0, det_box = Some [0, 0, 50, 20], det_confidence = Some (9/10),
            det_ocr_text = Some ''Hello'', det_ocr_confidence = None\<rparr>"

definition det_B :: detection where
  "det_B = \<lparr>det_id = Some 1, det_box = Some [60, 2, 110, 22], det_confidence = Some (8/10),
            det_ocr_text = Some ''World'', det_ocr_confidence = None\<rparr>"

definition det_Z :: detection where
  "det_Z = \<lparr>det_id = Some 2, det_box = Some [5, 100, 5, 100], det_confidence = Some (7/10),
            det_ocr_text = Some ''?'', det_ocr_confidence = None\<rparr>"

definition box_A :: DetectionBox where
  "box_A = \<lparr>box_id = 0, x1 = 0, y1 = 0, x2 = 50, y2 = 20, confidence = 9/10,
            ocr_text = ''Hello'', ocr_confidence = 0, line_id = - 1\<rparr>"

definition box_B :: DetectionBox where
  "box_B = \<lparr>box_id = 1, x1 = 60, y1 = 2, x2 = 110, y2 = 22, confidence = 8/10,
            ocr_text = ''World'', ocr_confidence = 0, line_id = - 1\<rparr>"

definition box_Z :: DetectionBox where
  "box_Z = \<lparr>box_id = 2, x1 = 5, y1 = 100, x2 = 5, y2 = 100, confidence = 7/10,
            ocr_text = ''?'', ocr_confidence = 0, line_id = - 1\<rparr>"

definition scenario_store :: store where
  "scenario_store = fst (allocate [box_B, box_Z, box_A])"

section \<open>Properties of the detection evaluator\<close>

definition all_metrics :: "det_result \<Rightarrow> real \<Rightarrow> bool" where
  "all_metrics r v = (precision r = v \<and> recall r = v \<and> ap r = v \<and> f1 r = v)"

text \<open>
  C5. \<^verbatim>\<open>evaluate_detection\<close> returns precision = recall = ap = f1 = 1.0 when the
  prediction list and the ground-truth list are both empty, and all four metrics equal
  to 0.0 when exactly one of the two lists is empty, whatever the IoU threshold.
\<close>

theorem evaluate_detection_empty_inputs:
  "(predictions = [] \<and> ground_truths = [] \<longrightarrow>
      (\<exists>r. evaluate_detection predictions ground_truths iou_threshold = Inr r \<and> all_metrics r 1))
   \<and> ((predictions = []) \<noteq> (ground_truths = []) \<longrightarrow>
      (\<exists>r. evaluate_detection predictions ground_truths iou_threshold = Inr r \<and> all_metrics r 0))"
  by (auto simp: evaluate_detection_def metrics_only_def all_metrics_def)

theorem evaluate_detection_empty_inputs_witness:
  "(\<exists>r. evaluate_detection [] [] (1/2) = Inr r \<and> all_metrics r 1)
   \<and> (\<exists>r. evaluate_detection [] [\<lparr>gt_box = (12, 8, 98, 52)\<rparr>] (1/2) = Inr r \<and> all_metrics r 0)
   \<and> (\<exists>r. evaluate_detection [\<lparr>pred_box = (10, 10, 100, 50), pred_confidence = Some (9/10)\<rparr>] [] (1/2)
          = Inr r \<and> all_metrics r 0)"
  using evaluate_detection_empty_inputs [of "[]" "[]" "1/2"]
        evaluate_detection_empty_inputs [of "[]" "[\<lparr>gt_box = (12, 8, 98, 52)\<rparr>]" "1/2"]
        evaluate_detection_empty_inputs
          [of "[\<lparr>pred_box = (10, 10, 100, 50), pred_confidence = Some (9/10)\<rparr>]" "[]" "1/2"]
  by simp

text \<open>
  C1. The matching of \<^verbatim>\<open>evaluate_detection\<close> is meant to be one-to-one, so that the
  number of true positives never exceeds the number of ground truths. With the
  threshold \<^verbatim>\<open>0.0\<close> the test \<^verbatim>\<open>best_iou >= iou_threshold\<close> also succeeds for a
  prediction that found no unmatched ground truth (\<^verbatim>\<open>best_iou = 0.0\<close>,
  \<^verbatim>\<open>best_gt_idx = -1\<close>): it is counted as a true positive and
  \<^verbatim>\<open>gt_matched[-1]\<close> is set again. Two predictions on one ground truth give two true
  positives and \<^verbatim>\<open>false_negatives = -1\<close>.
\<close>

theorem evaluate_detection_zero_threshold_true_positives:
  "map_sum id counts
     (evaluate_detection
        [\<lparr>pred_box = (0, 0, 10, 10), pred_confidence = Some (9/10)\<rparr>,
         \<lparr>pred_box = (0, 0, 10, 10), pred_confidence = Some (8/10)\<rparr>]
        [\<lparr>gt_box = (0, 0, 10, 10)\<rparr>] 0)
   = Inr (Some \<lparr>num_predictions = 2, num_ground_truths = 1, true_positives = 2,
                false_positives = 0, false_negatives = - 1\<rparr>)"
  by code_simp

text \<open>
  C2. The Average Precision returned by \<^verbatim>\<open>evaluate_detection\<close> is meant to lie in
  \<open>[0, 1]\<close>. On the same input (threshold \<^verbatim>\<open>0.0\<close>, two predictions, one ground
  truth) the recalls are \<^verbatim>\<open>[1.0, 2.0]\<close> and the value returned is 2.
\<close>

theorem evaluate_detection_zero_threshold_ap:
  "map_sum id ap
     (evaluate_detection
        [\<lparr>pred_box = (0, 0, 10, 10), pred_confidence = Some (9/10)\<rparr>,
         \<lparr>pred_box = (0, 0, 10, 10), pred_confidence = Some (8/10)\<rparr>]
        [\<lparr>gt_box = (0, 0, 10, 10)\<rparr>] 0)
   = Inr 2"
  by code_simp

section \<open>Properties of the text merger\<close>



section \<open>Properties of the text metrics\<close>

lemma editdistance_eval_same: "editdistance_eval s s = 0"
  by (induction s) auto

lemma editdistance_eval_zero: "editdistance_eval p g = 0 \<Longrightarrow> p = g"
  by (induction p g rule: editdistance_eval.induct) (auto simp: min_def split: if_splits)

lemma editdistance_eval_common_prefix:
  "editdistance_eval (c @ p) (c @ g) \<le> editdistance_eval p g"
proof (induction c)
  case Nil
  then show ?case by simp
next
  case (Cons x c)
  have "editdistance_eval (x # c @ p) (x # c @ g) \<le> editdistance_eval (c @ p) (c @ g)"
    by simp
  with Cons show ?case by simp
qed

lemma editdistance_eval_substitution:
  "editdistance_eval (x # p) (y # g) \<le> editdistance_eval p g + 1"
  by (simp add: min.coboundedI2)

lemma editdistance_hello: "editdistance_eval ''Hello Warld'' ''Hello World'' = 1"
proof -
  have "editdistance_eval (''Hello W'' @ ''arld'') (''Hello W'' @ ''orld'')
          \<le> editdistance_eval ''arld'' ''orld''"
    by (rule editdistance_eval_common_prefix)
  also have "\<dots> \<le> editdistance_eval ''rld'' ''rld'' + 1"
    by (rule editdistance_eval_substitution)
  also have "\<dots> = 1"
    by (simp only: editdistance_eval_same)
  finally have upper: "editdistance_eval ''Hello Warld'' ''Hello World'' \<le> 1"
    by (simp only: append.simps)
  have "''Hello Warld'' \<noteq> ''Hello World''"
    by simp
  then have "editdistance_eval ''Hello Warld'' ''Hello World'' \<noteq> 0"
    using editdistance_eval_zero by blast
  with upper show ?thesis by linarith
qed

text \<open>
  C7. The character error rate is the edit distance of the prediction and the reference
  divided by the length of the reference; for an empty reference it is 0 when the
  prediction is empty too and 1 otherwise. Hence \<open>CER(s, s) = 0\<close> for every \<open>s\<close>, and
  \<open>CER("Hello Warld", "Hello World") = 1/11\<close>.
\<close>

theorem calculate_cer_edit_distance:
  "calculate_cer p g =
     (if g = [] then (if p = [] then 0 else 1)
      else real (editdistance_eval p g) / real (length g))
   \<and> calculate_cer s s = 0
   \<and> calculate_cer ''Hello Warld'' ''Hello World'' = 1/11"
  by (simp add: calculate_cer_def editdistance_eval_same editdistance_hello
           del: editdistance_eval.simps)

text \<open>
  C8. \<^verbatim>\<open>evaluate_ocr\<close> raises its \<^verbatim>\<open>ValueError\<close> if and only if the two lists differ
  in length; on two empty lists it returns \<open>CER = 0.0\<close>, \<open>WER = 0.0\<close> and
  \<open>num_samples = 0\<close>.
\<close>

theorem evaluate_ocr_error_iff_length_mismatch:
  "((\<exists>e. evaluate_ocr jiwer_wer predictions ground_truths = Inl e)
      \<longleftrightarrow> length predictions \<noteq> length ground_truths)
   \<and> (length predictions \<noteq> length ground_truths \<longrightarrow>
        evaluate_ocr jiwer_wer predictions ground_truths
          = Inl (ValueError ''Predictions and ground truths must have same length''))
   \<and> evaluate_ocr jiwer_wer [] [] = Inr \<lparr>CER = 0, WER = 0, num_samples = 0, detail = None\<rparr>"
  by (simp add: evaluate_ocr_def Let_def)

theorem evaluate_ocr_error_iff_length_mismatch_witness:
  "evaluate_ocr (\<lambda>r p. None) [''abc''] []
     = Inl (ValueError ''Predictions and ground truths must have same length'')
   \<and> \<not> (\<exists>e. evaluate_ocr (\<lambda>r p. None) [''abc''] [''abd''] = Inl e)
   \<and> evaluate_ocr (\<lambda>r p. None) [] [] = Inr \<lparr>CER = 0, WER = 0, num_samples = 0, detail = None\<rparr>"
  using evaluate_ocr_error_iff_length_mismatch [of "\<lambda>r p. None" "[''abc'']" "[]"]
        evaluate_ocr_error_iff_length_mismatch [of "\<lambda>r p. None" "[''abc'']" "[''abd'']"]
  by simp

section \<open>Properties of the line clusterer\<close>

lemma assign_line_frame:
  "(assign_line k line h r)\<lparr>line_id := v\<rparr> = (h r)\<lparr>line_id := v\<rparr>"
  by (induction line arbitrary: h) auto

lemma assign_lines_frame:
  "(assign_lines kls h r)\<lparr>line_id := v\<rparr> = (h r)\<lparr>line_id := v\<rparr>"
proof (induction kls arbitrary: h)
  case Nil
  then show ?case by simp
next
  case (Cons kl kls)
  obtain k l where kl: "kl = (k, l)" by (cases kl)
  show ?case using Cons.IH [of "assign_line (int k) l h"]
    by (simp add: kl assign_line_frame)
qed

lemma group_into_lines_store_frame:
  "(snd (group_into_lines h boxes t) r)\<lparr>line_id := v\<rparr> = (h r)\<lparr>line_id := v\<rparr>"
  by (simp add: group_into_lines_def Let_def assign_lines_frame split: prod.splits)

text \<open>
  C10. \<^verbatim>\<open>group_into_lines\<close> changes only the field \<^verbatim>\<open>line_id\<close> of a box: the
  coordinates, the confidence, the OCR text, the OCR confidence and the id of every box
  in the store are after the call what they were before.
\<close>

theorem group_into_lines_changes_only_line_id:
  "box_id (snd (group_into_lines h boxes y_overlap_threshold) b) = box_id (h b)
   \<and> x1 (snd (group_into_lines h boxes y_overlap_threshold) b) = x1 (h b)
   \<and> y1 (snd (group_into_lines h boxes y_overlap_threshold) b) = y1 (h b)
   \<and> x2 (snd (group_into_lines h boxes y_overlap_threshold) b) = x2 (h b)
   \<and> y2 (snd (group_into_lines h boxes y_overlap_threshold) b) = y2 (h b)
   \<and> confidence (snd (group_into_lines h boxes y_overlap_threshold) b) = confidence (h b)
   \<and> ocr_text (snd (group_into_lines h boxes y_overlap_threshold) b) = ocr_text (h b)
   \<and> ocr_confidence (snd (group_into_lines h boxes y_overlap_threshold) b) = ocr_confidence (h b)"
proof -
  have eq: "(snd (group_into_lines h boxes y_overlap_threshold) b)\<lparr>line_id := 0\<rparr>
          = (h b)\<lparr>line_id := 0\<rparr>"
    by (rule group_into_lines_store_frame)
  show ?thesis
    using arg_cong [OF eq, of box_id] arg_cong [OF eq, of x1] arg_cong [OF eq, of y1]
      arg_cong [OF eq, of x2] arg_cong [OF eq, of y2] arg_cong [OF eq, of confidence]
      arg_cong [OF eq, of ocr_text] arg_cong [OF eq, of ocr_confidence]
    by simp
qed

lemma collect_line_added:
  "collect_line h t others (line, used) = (line', used') \<Longrightarrow>
   \<exists>added. line' = line @ added \<and> set added \<subseteq> set others
     \<and> used' = used \<union> (\<lambda>b. box_id (h b)) ` set added
     \<and> distinct (map (\<lambda>b. box_id (h b)) added)
     \<and> (\<lambda>b. box_id (h b)) ` set added \<inter> used = {}"
proof (induction others arbitrary: line used)
  case Nil
  then show ?case by simp
next
  case (Cons other rest)
  let ?ids = "\<lambda>b. box_id (h b)"
  show ?case
  proof (cases "?ids other \<notin> used \<and> overlaps_line h t other line")
    case True
    with Cons.prems have
      "collect_line h t rest (line @ [other], insert (?ids other) used) = (line', used')"
      by simp
    from Cons.IH [OF this] obtain added where
      a: "line' = (line @ [other]) @ added" "set added \<subseteq> set rest"
         "used' = insert (?ids other) used \<union> ?ids ` set added"
         "distinct (map ?ids added)"
         "?ids ` set added \<inter> insert (?ids other) used = {}"
      by blast
    have "line' = line @ (other # added)" using a(1) by simp
    moreover have "set (other # added) \<subseteq> set (other # rest)" using a(2) by auto
    moreover have "used' = used \<union> ?ids ` set (other # added)" using a(3) by auto
    moreover have "distinct (map ?ids (other # added))" using a(4,5) by auto
    moreover have "?ids ` set (other # added) \<inter> used = {}" using a(5) True by auto
    ultimately show ?thesis by blast
  next
    case False
    with Cons.prems have "collect_line h t rest (line, used) = (line', used')"
      by (auto split: if_splits)
    from Cons.IH [OF this] obtain added where
      a: "line' = line @ added" "set added \<subseteq> set rest"
         "used' = used \<union> ?ids ` set added"
         "distinct (map ?ids added)"
         "?ids ` set added \<inter> used = {}"
      by blast
    have "set added \<subseteq> set (other # rest)" using a(2) by auto
    with a show ?thesis by blast
  qed
qed

lemma build_lines_invariant:
  "build_lines h t sorted_boxes todo (lines, used) = (lines', used') \<Longrightarrow>
   used = (\<lambda>b. box_id (h b)) ` set (concat lines) \<Longrightarrow>
   distinct (map (\<lambda>b. box_id (h b)) (concat lines)) \<Longrightarrow>
   used' = (\<lambda>b. box_id (h b)) ` set (concat lines')
   \<and> distinct (map (\<lambda>b. box_id (h b)) (concat lines'))
   \<and> set (concat lines') \<subseteq> set (concat lines) \<union> set todo \<union> set sorted_boxes
   \<and> (\<lambda>b. box_id (h b)) ` set todo \<subseteq> used'
   \<and> used \<subseteq> used'"
proof (induction todo arbitrary: lines used)
  case Nil
  then show ?case by auto
next
  case (Cons box rest)
  let ?ids = "\<lambda>b. box_id (h b)"
  show ?case
  proof (cases "?ids box \<in> used")
    case True
    with Cons.prems(1) have "build_lines h t sorted_boxes rest (lines, used) = (lines', used')"
      by simp
    from Cons.IH [OF this Cons.prems(2) Cons.prems(3)] True show ?thesis by auto
  next
    case False
    obtain current_line used1 where
      cl: "collect_line h t sorted_boxes ([box], insert (?ids box) used) = (current_line, used1)"
      by (cases "collect_line h t sorted_boxes ([box], insert (?ids box) used)")
    let ?new = "sort_key (\<lambda>b. center_x (h b)) current_line"
    from False cl Cons.prems(1)
    have run: "build_lines h t sorted_boxes rest (lines @ [?new], used1) = (lines', used')"
      by simp
    from collect_line_added [OF cl] obtain added where
      a: "current_line = [box] @ added" "set added \<subseteq> set sorted_boxes"
         "used1 = insert (?ids box) used \<union> ?ids ` set added"
         "distinct (map ?ids added)"
         "?ids ` set added \<inter> insert (?ids box) used = {}"
      by blast
    have set_new: "set ?new = insert box (set added)"
      unfolding set_sort a(1) by simp
    have used1: "used1 = ?ids ` set (concat (lines @ [?new]))"
      using a(3) Cons.prems(2) set_new by auto
    have "distinct (map ?ids current_line)"
      using a(1,4,5) by auto
    then have "distinct (map ?ids ?new)"
      by (simp add: distinct_map)
    moreover have "?ids ` set ?new \<inter> used = {}"
      using set_new a(5) False by auto
    ultimately have dist1: "distinct (map ?ids (concat (lines @ [?new])))"
      using Cons.prems(2,3) by auto
    from Cons.IH [OF run used1 dist1]
    have r: "used' = ?ids ` set (concat lines')"
         "distinct (map ?ids (concat lines'))"
         "set (concat lines') \<subseteq> set (concat (lines @ [?new])) \<union> set rest \<union> set sorted_boxes"
         "?ids ` set rest \<subseteq> used'"
         "used1 \<subseteq> used'"
      by blast+
    have "set (concat lines') \<subseteq> set (concat lines) \<union> set (box # rest) \<union> set sorted_boxes"
      using r(3) set_new a(2) by auto
    moreover have "?ids ` set (box # rest) \<subseteq> used'"
      using r(4,5) a(3) by auto
    moreover have "used \<subseteq> used'"
      using r(5) a(3) by auto
    ultimately show ?thesis using r(1,2) by blast
  qed
qed

lemma mset_concat_cong:
  "mset xss = mset yss \<Longrightarrow> mset (concat xss) = mset (concat yss)"
proof -
  assume eq: "mset xss = mset yss"
  have "mset (concat zss) = sum_mset (image_mset mset (mset zss))" for zss :: "'a list list"
    by (induction zss) simp_all
  then show ?thesis using eq by simp
qed

lemma group_into_lines_mset:
  assumes "distinct (map (\<lambda>b. box_id (h b)) boxes)"
  shows "mset (concat (fst (group_into_lines h boxes t))) = mset boxes"
proof (cases "boxes = []")
  case True
  then show ?thesis by (simp add: group_into_lines_def)
next
  case False
  let ?ids = "\<lambda>b. box_id (h b)"
  let ?sorted = "sort_key (\<lambda>b. center_y (h b)) boxes"
  obtain lines used where
    bl: "build_lines h t ?sorted ?sorted ([], {}) = (lines, used)"
    by (cases "build_lines h t ?sorted ?sorted ([], {})")
  have res: "fst (group_into_lines h boxes t) = sort_key (line_mean_y h) lines"
    using False bl by (simp add: group_into_lines_def Let_def)
  have "used = ?ids ` set (concat lines) \<and> distinct (map ?ids (concat lines))
          \<and> set (concat lines) \<subseteq> set (concat []) \<union> set ?sorted \<union> set ?sorted
          \<and> ?ids ` set ?sorted \<subseteq> used \<and> {} \<subseteq> used"
    by (rule build_lines_invariant [OF bl]) simp_all
  then have inv: "used = ?ids ` set (concat lines)" "distinct (map ?ids (concat lines))"
            "set (concat lines) \<subseteq> set boxes" "?ids ` set boxes \<subseteq> used"
    by auto
  have inj: "inj_on ?ids (set boxes)" and dist_boxes: "distinct boxes"
    using assms by (simp_all add: distinct_map)
  have "set boxes \<subseteq> set (concat lines)"
  proof
    fix b assume b: "b \<in> set boxes"
    then have "?ids b \<in> ?ids ` set (concat lines)" using inv(1,4) by blast
    then obtain c where c: "c \<in> set (concat lines)" "?ids b = ?ids c" by blast
    then have "c = b" using inj b inv(3) by (metis inj_on_eq_iff subsetD)
    with c show "b \<in> set (concat lines)" by simp
  qed
  with inv(3) have "set (concat lines) = set boxes" by blast
  moreover have "distinct (concat lines)" using inv(2) by (simp add: distinct_map)
  ultimately have "mset (concat lines) = mset boxes"
    using dist_boxes set_eq_iff_mset_eq_distinct [of "concat lines" boxes] by blast
  moreover have "mset (concat (sort_key (line_mean_y h) lines)) = mset (concat lines)"
    by (rule mset_concat_cong) simp
  ultimately show ?thesis using res by simp
qed

lemma assign_line_other: "r \<notin> set line \<Longrightarrow> assign_line k line h r = h r"
  by (induction line arbitrary: h) auto

lemma assign_line_member: "r \<in> set line \<Longrightarrow> line_id (assign_line k line h r) = k"
proof (induction line arbitrary: h)
  case Nil
  then show ?case by simp
next
  case (Cons b rest)
  show ?case
  proof (cases "r \<in> set rest")
    case True
    then show ?thesis using Cons.IH by simp
  next
    case False
    with Cons.prems have "r = b" by simp
    with False show ?thesis by (simp add: assign_line_other)
  qed
qed

lemma assign_lines_other:
  "r \<notin> set (concat (map snd kls)) \<Longrightarrow> assign_lines kls h r = h r"
proof (induction kls arbitrary: h)
  case Nil
  then show ?case by simp
next
  case (Cons kl kls)
  obtain k l where kl: "kl = (k, l)" by (cases kl)
  with Cons show ?case by (simp add: assign_line_other)
qed

lemma assign_lines_member:
  "distinct (concat ls) \<Longrightarrow> i < length ls \<Longrightarrow> r \<in> set (ls ! i) \<Longrightarrow>
   line_id (assign_lines (enumerate n ls) h r) = int (n + i)"
proof (induction ls arbitrary: n h i)
  case Nil
  then show ?case by simp
next
  case (Cons l ls)
  show ?case
  proof (cases i)
    case 0
    with Cons.prems have "r \<in> set l" by simp
    moreover from this Cons.prems(1) have "r \<notin> set (concat (map snd (enumerate (Suc n) ls)))"
      by auto
    ultimately show ?thesis using 0
      by (simp add: assign_lines_other assign_line_member)
  next
    case (Suc j)
    with Cons.prems have "distinct (concat ls)" "j < length ls" "r \<in> set (ls ! j)"
      by simp_all
    from Cons.IH [OF this, of "Suc n" "assign_line (int n) l h"] Suc
    show ?thesis by simp
  qed
qed

lemma distinct_concat_disjoint:
  "distinct (concat ls) \<Longrightarrow> i < length ls \<Longrightarrow> j < length ls \<Longrightarrow> i \<noteq> j \<Longrightarrow>
   set (ls ! i) \<inter> set (ls ! j) = {}"
proof (induction ls arbitrary: i j)
  case Nil
  then show ?case by simp
next
  case (Cons l ls)
  show ?case
  proof (cases i)
    case 0
    with Cons.prems obtain j' where j: "j = Suc j'" "j' < length ls"
      by (cases j) auto
    then have "ls ! j' \<in> set ls" by simp
    then have "set (ls ! j') \<subseteq> set (concat ls)" by auto
    with Cons.prems(1) 0 j show ?thesis by auto
  next
    case (Suc i')
    show ?thesis
    proof (cases j)
      case 0
      from Suc Cons.prems have "ls ! i' \<in> set ls" by simp
      then have "set (ls ! i') \<subseteq> set (concat ls)" by auto
      with Cons.prems(1) 0 Suc show ?thesis by auto
    next
      case (Suc j')
      with \<open>i = Suc i'\<close> Cons.prems Cons.IH [of i' j'] show ?thesis by simp
    qed
  qed
qed

text \<open>
  C4. For boxes with pairwise distinct ids the lines returned by
  \<^verbatim>\<open>group_into_lines\<close> partition the input: together they hold every input box
  exactly once, two different lines share no box, and every input box lies in exactly
  one line, whose index is the \<^verbatim>\<open>line_id\<close> the box carries afterwards.
\<close>

theorem group_into_lines_partition:
  assumes "distinct (map (\<lambda>b. box_id (h b)) boxes)"
  shows "case group_into_lines h boxes y_overlap_threshold of (lines, h') \<Rightarrow>
           mset (concat lines) = mset boxes
           \<and> (\<forall>i<length lines. \<forall>j<length lines. i \<noteq> j \<longrightarrow> set (lines ! i) \<inter> set (lines ! j) = {})
           \<and> (\<forall>b\<in>set boxes. \<exists>!k. k < length lines \<and> b \<in> set (lines ! k))
           \<and> (\<forall>k<length lines. \<forall>b\<in>set (lines ! k). line_id (h' b) = int k)"
proof -
  obtain lines h' where g: "group_into_lines h boxes y_overlap_threshold = (lines, h')"
    by (cases "group_into_lines h boxes y_overlap_threshold")
  have m: "mset (concat lines) = mset boxes"
    using group_into_lines_mset [OF assms, of y_overlap_threshold] g by simp
  have "distinct boxes" using assms by (simp add: distinct_map)
  with m have d: "distinct (concat lines)"
    using mset_eq_imp_distinct_iff by blast
  have disj: "\<forall>i<length lines. \<forall>j<length lines. i \<noteq> j \<longrightarrow> set (lines ! i) \<inter> set (lines ! j) = {}"
    using distinct_concat_disjoint [OF d] by blast
  have h': "h' = assign_lines (enumerate 0 lines) h"
    using g by (auto simp: group_into_lines_def Let_def split: if_splits prod.splits)
  have ids: "\<forall>k<length lines. \<forall>b\<in>set (lines ! k). line_id (h' b) = int k"
    using assign_lines_member [OF d, of _ _ 0 h] h' by simp
  have ex1: "\<forall>b\<in>set boxes. \<exists>!k. k < length lines \<and> b \<in> set (lines ! k)"
  proof
    fix b assume "b \<in> set boxes"
    then have "b \<in> set (concat lines)" using m by (metis set_mset_mset)
    then obtain l where l: "l \<in> set lines" "b \<in> set l"
      by auto
    then obtain k where k: "k < length lines" "b \<in> set (lines ! k)"
      by (metis in_set_conv_nth)
    show "\<exists>!k. k < length lines \<and> b \<in> set (lines ! k)"
    proof (rule ex1I [of _ k])
      show "k < length lines \<and> b \<in> set (lines ! k)" using k by simp
    next
      fix k' assume "k' < length lines \<and> b \<in> set (lines ! k')"
      with k disj show "k' = k" by (metis IntI empty_iff)
    qed
  qed
  show ?thesis using g m disj ex1 ids by simp
qed

theorem group_into_lines_partition_witness:
  "distinct (map (\<lambda>b. box_id (scenario_store b)) [0, 1, 2])
   \<and> (case group_into_lines scenario_store [0, 1, 2] (1/2) of (lines, h') \<Rightarrow>
         mset (concat lines) = mset [0, 1, 2]
         \<and> (\<forall>i<length lines. \<forall>j<length lines. i \<noteq> j \<longrightarrow> set (lines ! i) \<inter> set (lines ! j) = {})
         \<and> (\<forall>b\<in>set [0, 1, 2]. \<exists>!k. k < length lines \<and> b \<in> set (lines ! k))
         \<and> (\<forall>k<length lines. \<forall>b\<in>set (lines ! k). line_id (h' b) = int k))
   \<and> fst (group_into_lines scenario_store [0, 1, 2] (1/2)) = [[2, 0], [1]]"
proof -
  have d: "distinct (map (\<lambda>b. box_id (scenario_store b)) [0, 1, 2])"
    by (simp add: scenario_store_def allocate_def box_A_def box_B_def box_Z_def)
  have e: "fst (group_into_lines scenario_store [0, 1, 2] (1/2)) = [[2, 0], [1]]"
    by code_simp
  from conjI [OF d conjI [OF group_into_lines_partition [OF d, of "1/2"] e]]
  show ?thesis .
qed

lemma take_four: "4 \<le> length c \<Longrightarrow> take 4 c = [c ! 0, c ! 1, c ! 2, c ! 3]"
proof -
  assume l: "4 \<le> length c"
  obtain a r1 where c: "c = a # r1" using l by (cases c) auto
  obtain b r2 where r1: "r1 = b # r2" using l c by (cases r1) auto
  obtain d r3 where r2: "r2 = d # r3" using l c r1 by (cases r2) auto
  obtain e r4 where r3: "r3 = e # r4" using l c r1 r2 by (cases r3) auto
  show ?thesis by (simp add: c r1 r2 r3)
qed

lemma parse_loop_coordinates:
  "parse_loop detections boxes = Inr bs \<Longrightarrow>
   map (\<lambda>b. [x1 b, y1 b, x2 b, y2 b]) bs
     = map (\<lambda>b. [x1 b, y1 b, x2 b, y2 b]) boxes
       @ map (\<lambda>d. take 4 (get_default (det_box d) [0, 0, 0, 0])) detections"
proof (induction detections arbitrary: boxes)
  case Nil
  then show ?case by simp
next
  case (Cons det detections)
  let ?c = "get_default (det_box det) [0, 0, 0, 0]"
  have len: "4 \<le> length ?c"
    using Cons.prems by (auto simp: Let_def split: if_splits)
  then have "\<not> length ?c < 4" by simp
  with Cons.prems obtain nb where
    run: "parse_loop detections (boxes @ [nb]) = Inr bs"
    and nb: "[x1 nb, y1 nb, x2 nb, y2 nb] = [?c ! 0, ?c ! 1, ?c ! 2, ?c ! 3]"
    by (auto simp: Let_def)
  from Cons.IH [OF run] nb take_four [OF len] show ?case by simp
qed

text \<open>
  C3, as the code has it. Neither \<^verbatim>\<open>parse_detections\<close> nor
  \<^verbatim>\<open>group_into_lines\<close> looks at the geometry of a box. The detection
  \<open>Z = [5, 100, 5, 100]\<close> of width and height zero becomes a \<^verbatim>\<open>DetectionBox\<close> like
  any other; stored at reference 1, it is put in a line of its own by the clustering.
\<close>

theorem degenerate_box_is_clustered:
  "parse_detections (Some [det_B, det_Z, det_A]) = Inr [box_B, box_Z, box_A]
   \<and> width box_Z \<le> 0 \<and> height box_Z \<le> 0
   \<and> allocate [box_B, box_Z, box_A] = (scenario_store, [0, 1, 2])
   \<and> fst (group_into_lines scenario_store [0, 1, 2] (1/2)) = [[2, 0], [1]]
   \<and> scenario_store 1 = box_Z"
proof (intro conjI)
  show "parse_detections (Some [det_B, det_Z, det_A]) = Inr [box_B, box_Z, box_A]"
    by (simp add: parse_detections_def det_A_def det_Z_def det_B_def box_A_def box_Z_def
          box_B_def get_default_def)
  show "width box_Z \<le> 0" and "height box_Z \<le> 0"
    by (simp_all add: width_def height_def box_Z_def)
  show "allocate [box_B, box_Z, box_A] = (scenario_store, [0, 1, 2])"
    by (simp add: scenario_store_def allocate_def upt_conv_Cons)
  show "fst (group_into_lines scenario_store [0, 1, 2] (1/2)) = [[2, 0], [1]]"
    by code_simp
  show "scenario_store 1 = box_Z"
    by (simp add: scenario_store_def allocate_def)
qed

text \<open>
  C3, amended. No box is rejected: \<^verbatim>\<open>parse_detections\<close> builds one box for each
  detection with the coordinates as they are given, and for boxes with pairwise
  distinct ids every box of the input, one of zero or negative height or width
  included, lies in a line returned by \<^verbatim>\<open>group_into_lines\<close>, together with the
  valid boxes of the batch.
\<close>

theorem group_into_lines_rejects_no_box:
  "(parse_detections (Some detections) = Inr bs \<longrightarrow>
      map (\<lambda>b. [x1 b, y1 b, x2 b, y2 b]) bs
        = map (\<lambda>d. take 4 (get_default (det_box d) [0, 0, 0, 0])) detections)
   \<and> (distinct (map (\<lambda>b. box_id (h b)) boxes) \<longrightarrow>
        set (concat (fst (group_into_lines h boxes y_overlap_threshold))) = set boxes)"
proof (intro conjI impI)
  assume "parse_detections (Some detections) = Inr bs"
  then show "map (\<lambda>b. [x1 b, y1 b, x2 b, y2 b]) bs
        = map (\<lambda>d. take 4 (get_default (det_box d) [0, 0, 0, 0])) detections"
    using parse_loop_coordinates [of detections "[]" bs]
    by (simp add: parse_detections_def get_default_def)
next
  assume "distinct (map (\<lambda>b. box_id (h b)) boxes)"
  from group_into_lines_mset [OF this, of y_overlap_threshold]
  show "set (concat (fst (group_into_lines h boxes y_overlap_threshold))) = set boxes"
    by (metis set_mset_mset)
qed

theorem group_into_lines_rejects_no_box_witness:
  "parse_detections (Some [det_A, det_Z]) = Inr [box_A, box_Z]
   \<and> map (\<lambda>b. [x1 b, y1 b, x2 b, y2 b]) [box_A, box_Z]
       = [[0, 0, 50, 20], [5, 100, 5, 100]]
   \<and> distinct (map (\<lambda>b. box_id (scenario_store b)) [0, 1, 2])
   \<and> set (concat (fst (group_into_lines scenario_store [0, 1, 2] (1/2)))) = {0, 1, 2}"
proof -
  have p: "parse_detections (Some [det_A, det_Z]) = Inr [box_A, box_Z]"
    by (simp add: parse_detections_def det_A_def det_Z_def box_A_def box_Z_def get_default_def)
  have d: "distinct (map (\<lambda>b. box_id (scenario_store b)) [0, 1, 2])"
    by (simp add: scenario_store_def allocate_def box_A_def box_B_def box_Z_def)
  show ?thesis
    using p d
      group_into_lines_rejects_no_box [of "[det_A, det_Z]" "[box_A, box_Z]"
        scenario_store "[0, 1, 2]" "1/2"]
    by (simp add: det_A_def det_Z_def get_default_def insert_commute)
qed

section \<open>The matching loop\<close>

lemma find_best_cases:
  "find_best pb m es (b0, k0) = (b, k) \<Longrightarrow>
   (b, k) = (b0, k0) \<or> (b0 < b \<and> (\<exists>i g. (i, g) \<in> set es \<and> k = int i \<and> \<not> m ! i))"
proof (induction es arbitrary: b0 k0)
  case Nil
  then show ?case by simp
next
  case (Cons e es)
  obtain i g where e: "e = (i, g)" by (cases e)
  let ?iou = "calculate_iou pb (gt_box g)"
  show ?case
  proof (cases "\<not> m ! i \<and> ?iou > b0")
    case True
    with Cons.prems e have "find_best pb m es (?iou, int i) = (b, k)"
      by (simp add: Let_def)
    from Cons.IH [OF this] True e show ?thesis by fastforce
  next
    case False
    with Cons.prems e have "find_best pb m es (b0, k0) = (b, k)"
      by (auto simp: Let_def split: if_splits)
    from Cons.IH [OF this] show ?thesis by auto
  qed
qed

lemma find_best_initial:
  assumes "find_best pb m (enumerate 0 gts) (0, - 1) = (b, k)"
  shows "(b = 0 \<and> k = - 1) \<or> (0 < b \<and> 0 \<le> k \<and> nat k < length gts \<and> \<not> m ! nat k)"
proof -
  from find_best_cases [OF assms]
  consider "(b, k) = (0, - 1)"
    | i g where "0 < b" "(i, g) \<in> set (enumerate 0 gts)" "k = int i" "\<not> m ! i"
    by blast
  then show ?thesis
  proof cases
    case 1
    then show ?thesis by simp
  next
    case 2
    then have "i < length gts" by (simp add: in_set_enumerate_eq)
    with 2 show ?thesis by simp
  qed
qed

lemma count_true_update:
  "i < length m \<Longrightarrow> \<not> m ! i \<Longrightarrow>
   length (filter (\<lambda>x. x) (m[i := True])) = Suc (length (filter (\<lambda>x. x) m))"
proof (induction m arbitrary: i)
  case Nil
  then show ?case by simp
next
  case (Cons x m)
  then show ?case by (cases i) auto
qed

lemma py_setitem_in_range:
  "- 1 \<le> k \<Longrightarrow> k < int (length m) \<Longrightarrow> 0 < length m \<Longrightarrow>
   \<exists>m1. py_setitem m k v = Inr m1 \<and> length m1 = length m"
proof (cases "k < 0")
  case True
  assume a: "- 1 \<le> k" "0 < length m"
  from a(2) have "1 \<le> int (length m)" by linarith
  with True a(1) have "0 \<le> int (length m) + k" "int (length m) + k < int (length m)"
    by linarith+
  with True show ?thesis by (simp add: py_setitem_def Let_def)
next
  case False
  assume "k < int (length m)"
  with False show ?thesis by (simp add: py_setitem_def Let_def)
qed

text \<open>
  The loop never raises: \<^verbatim>\<open>best_gt_idx\<close> is \<open>-1\<close> or the index of a ground truth,
  and the list of ground truths is not empty on this path.
\<close>

lemma match_loop_returns:
  "length m = length gts \<Longrightarrow> gts \<noteq> [] \<Longrightarrow>
   \<exists>m' tp' fp'. match_loop t gts preds (m, tp, fp) = Inr (m', tp', fp')
      \<and> length m' = length gts"
proof (induction preds arbitrary: m tp fp)
  case Nil
  then show ?case by simp
next
  case (Cons pred preds)
  obtain b k where fb: "find_best (pred_box pred) m (enumerate 0 gts) (0, - 1) = (b, k)"
    by (cases "find_best (pred_box pred) m (enumerate 0 gts) (0, - 1)")
  from find_best_initial [OF fb] Cons.prems
  have range: "- 1 \<le> k" "k < int (length m)" "0 < length m"
    by auto
  from py_setitem_in_range [OF this, of True]
  obtain m1 where set: "py_setitem m k True = Inr m1" "length m1 = length m"
    by blast
  show ?case
  proof (cases "b \<ge> t")
    case True
    with fb set Cons.IH [of m1 "tp @ [1]" "fp @ [0]"] Cons.prems show ?thesis by simp
  next
    case False
    with fb Cons.IH [of m "tp @ [0]" "fp @ [1]"] Cons.prems show ?thesis by simp
  qed
qed

text \<open>
  With a positive threshold a true positive always marks a ground truth that was
  unmatched, so the true positives are as many as the marked ground truths; every
  prediction adds one to exactly one of \<^verbatim>\<open>tp\<close> and \<^verbatim>\<open>fp\<close>.
\<close>

lemma match_loop_positive_threshold:
  "0 < t \<Longrightarrow> length m = length gts \<Longrightarrow>
   match_loop t gts preds (m, tp, fp) = Inr (m', tp', fp') \<Longrightarrow>
   sum_list tp = length (filter (\<lambda>x. x) m) \<Longrightarrow>
   sum_list tp' = length (filter (\<lambda>x. x) m') \<and> length m' = length gts"
proof (induction preds arbitrary: m tp fp)
  case Nil
  then show ?case by simp
next
  case (Cons pred preds)
  obtain b k where fb: "find_best (pred_box pred) m (enumerate 0 gts) (0, - 1) = (b, k)"
    by (cases "find_best (pred_box pred) m (enumerate 0 gts) (0, - 1)")
  show ?case
  proof (cases "b \<ge> t")
    case True
    with Cons.prems(1) find_best_initial [OF fb]
    have k: "0 \<le> k" "nat k < length gts" "\<not> m ! nat k" by auto
    then have set: "py_setitem m k True = Inr (m[nat k := True])"
      using Cons.prems(2) by (auto simp: py_setitem_def Let_def)
    from True fb set Cons.prems(3)
    have run: "match_loop t gts preds (m[nat k := True], tp @ [1], fp @ [0]) = Inr (m', tp', fp')"
      by simp
    have "sum_list (tp @ [1]) = length (filter (\<lambda>x. x) (m[nat k := True]))"
      using Cons.prems(2,4) k by (simp add: count_true_update)
    from Cons.IH [OF Cons.prems(1) _ run this] Cons.prems(2) show ?thesis by simp
  next
    case False
    with fb Cons.prems(3)
    have run: "match_loop t gts preds (m, tp @ [0], fp @ [1]) = Inr (m', tp', fp')"
      by simp
    from Cons.IH [OF Cons.prems(1,2) run] Cons.prems(4) show ?thesis by simp
  qed
qed

lemma match_loop_flags:
  "match_loop t gts preds (m, tp, fp) = Inr (m', tp', fp') \<Longrightarrow>
   \<exists>ds. length ds = length preds \<and> tp' = tp @ map (\<lambda>d. if d then 1 else 0) ds
        \<and> fp' = fp @ map (\<lambda>d. if d then 0 else 1) ds"
proof (induction preds arbitrary: m tp fp)
  case Nil
  then show ?case by simp
next
  case (Cons pred preds)
  obtain b k where fb: "find_best (pred_box pred) m (enumerate 0 gts) (0, - 1) = (b, k)"
    by (cases "find_best (pred_box pred) m (enumerate 0 gts) (0, - 1)")
  show ?case
  proof (cases "b \<ge> t")
    case True
    with fb Cons.prems obtain m1 where
      "match_loop t gts preds (m1, tp @ [1], fp @ [0]) = Inr (m', tp', fp')"
      by (auto split: sum.splits)
    from Cons.IH [OF this] obtain ds where
      "length ds = length preds" "tp' = (tp @ [1]) @ map (\<lambda>d. if d then 1 else 0) ds"
      "fp' = (fp @ [0]) @ map (\<lambda>d. if d then 0 else 1) ds"
      by blast
    then have "length (True # ds) = length (pred # preds)
       \<and> tp' = tp @ map (\<lambda>d. if d then 1 else 0) (True # ds)
       \<and> fp' = fp @ map (\<lambda>d. if d then 0 else 1) (True # ds)"
      by simp
    then show ?thesis by blast
  next
    case False
    with fb Cons.prems have
      "match_loop t gts preds (m, tp @ [0], fp @ [1]) = Inr (m', tp', fp')"
      by simp
    from Cons.IH [OF this] obtain ds where
      "length ds = length preds" "tp' = (tp @ [0]) @ map (\<lambda>d. if d then 1 else 0) ds"
      "fp' = (fp @ [1]) @ map (\<lambda>d. if d then 0 else 1) ds"
      by blast
    then have "length (False # ds) = length (pred # preds)
       \<and> tp' = tp @ map (\<lambda>d. if d then 1 else 0) (False # ds)
       \<and> fp' = fp @ map (\<lambda>d. if d then 0 else 1) (False # ds)"
      by simp
    then show ?thesis by blast
  qed
qed


text \<open>
  For a positive threshold the count of true positives reported by
  \<^verbatim>\<open>evaluate_detection\<close> is at most the number of ground truths.
\<close>

lemma evaluate_detection_true_positives_bound:
  assumes "0 < iou_threshold"
    and "evaluate_detection predictions ground_truths iou_threshold = Inr r"
    and "counts r = Some c"
  shows "0 \<le> true_positives c \<and> true_positives c \<le> int (length ground_truths)
         \<and> false_negatives c \<ge> 0"
proof -
  from assms(2,3) have ne: "predictions \<noteq> []" "ground_truths \<noteq> []"
    by (auto simp: evaluate_detection_def metrics_only_def split: if_splits)
  let ?n = "length ground_truths"
  from match_loop_returns [of "replicate ?n False" ground_truths iou_threshold
         "sorted_preds_of predictions" "[]" "[]"] ne
  obtain m' tp' fp' where
    run: "match_loop iou_threshold ground_truths (sorted_preds_of predictions)
            (replicate ?n False, [], []) = Inr (m', tp', fp')"
    by auto
  have "sum_list tp' = length (filter (\<lambda>x. x) m') \<and> length m' = ?n"
    by (rule match_loop_positive_threshold [OF assms(1) _ run]) simp_all
  then have bound: "sum_list tp' \<le> ?n"
    by (metis length_filter_le)
  from assms(2,3) ne run have "true_positives c = int (sum_list tp')"
    "false_negatives c = int ?n - int (sum_list tp')"
    by (auto simp: evaluate_detection_def Let_def)
  with bound show ?thesis by simp
qed

section \<open>Properties of \<^verbatim>\<open>calculate_map\<close>\<close>








text \<open>
  Two thresholds with the same label share one entry of the dict. For the thresholds
  0.5 and 0.501 and a prediction whose IoU with the ground truth is exactly 0.5 the
  Average Precisions are 1 and 0, but both reads find the second value: the mean
  returned is 0, and so is \<^verbatim>\<open>mAP@0.5\<close>.
\<close>

lemma calculate_map_label_collision:
  "map_sum id (\<lambda>res. (mAP_50 res, mAP_50_95 res))
     (calculate_map [[\<lparr>pred_box = (0, 0, 10, 10), pred_confidence = Some (9/10)\<rparr>]]
        [[\<lparr>gt_box = (0, 0, 10, 5)\<rparr>]] (Some [1/2, 501/1000])) = Inr (0, Some 0)
   \<and> map (map_sum id ap \<circ>
          evaluate_detection [\<lparr>pred_box = (0, 0, 10, 10), pred_confidence = Some (9/10)\<rparr>]
            [\<lparr>gt_box = (0, 0, 10, 5)\<rparr>]) [1/2, 501/1000] = [Inr 1, Inr 0]"
  by code_simp

section \<open>Bounds of the Average Precision\<close>

lemma fold_envelope_step_bounds:
  "\<forall>x\<in>set ps. 0 \<le> x \<and> x \<le> 1 \<Longrightarrow> \<forall>i\<in>set idxs. i + 1 < length ps \<Longrightarrow>
   length (fold envelope_step idxs ps) = length ps
   \<and> (\<forall>x\<in>set (fold envelope_step idxs ps). 0 \<le> x \<and> x \<le> 1)"
proof (induction idxs arbitrary: ps)
  case Nil
  then show ?case by simp
next
  case (Cons i idxs)
  let ?ps1 = "envelope_step i ps"
  have i: "i < length ps" "i + 1 < length ps" using Cons.prems(2) by simp_all
  then have "ps ! i \<in> set ps" "ps ! (i + 1) \<in> set ps" by simp_all
  with Cons.prems(1) have v: "0 \<le> max (ps ! i) (ps ! (i + 1))" "max (ps ! i) (ps ! (i + 1)) \<le> 1"
    by (auto simp: max_def)
  have "set ?ps1 \<subseteq> insert (max (ps ! i) (ps ! (i + 1))) (set ps)"
    unfolding envelope_step_def by (rule set_update_subset_insert)
  with v Cons.prems(1) have b1: "\<forall>x\<in>set ?ps1. 0 \<le> x \<and> x \<le> 1" by auto
  have l1: "length ?ps1 = length ps" by (simp add: envelope_step_def)
  with Cons.prems(2) have "\<forall>i\<in>set idxs. i + 1 < length ?ps1" by simp
  from Cons.IH [OF b1 this] l1 show ?case by simp
qed

lemma monotone_envelope_bounds:
  assumes "\<forall>x\<in>set ps. 0 \<le> x \<and> x \<le> 1"
  shows "length (monotone_envelope ps) = length ps"
    and "\<forall>x\<in>set (monotone_envelope ps). 0 \<le> x \<and> x \<le> 1"
proof -
  have "\<forall>i\<in>set (rev [0..<length ps - 1]). i + 1 < length ps" by auto
  from fold_envelope_step_bounds [OF assms this]
  show "length (monotone_envelope ps) = length ps"
    and "\<forall>x\<in>set (monotone_envelope ps). 0 \<le> x \<and> x \<le> 1"
    by (simp_all add: monotone_envelope_def)
qed

lemma ap_sum_bounds:
  "sorted rs \<Longrightarrow> \<forall>x\<in>set ps. 0 \<le> x \<and> x \<le> 1 \<Longrightarrow> length ps = length rs \<Longrightarrow>
   k < length rs \<Longrightarrow>
   0 \<le> fold (ap_step ps rs) [1..<Suc k] 0
   \<and> fold (ap_step ps rs) [1..<Suc k] 0 \<le> rs ! k - rs ! 0"
proof (induction k)
  case 0
  then show ?case by simp
next
  case (Suc k)
  let ?a = "fold (ap_step ps rs) [1..<Suc k] 0"
  from Suc have ih: "0 \<le> ?a" "?a \<le> rs ! k - rs ! 0" by simp_all
  have step: "fold (ap_step ps rs) [1..<Suc (Suc k)] 0 = ap_step ps rs (Suc k) ?a"
    by simp
  have mono: "rs ! k \<le> rs ! Suc k"
    using Suc.prems(1,4) by (simp add: sorted_iff_nth_mono)
  have "ps ! Suc k \<in> set ps" using Suc.prems(3,4) by simp
  with Suc.prems(2) have p: "0 \<le> ps ! Suc k" "ps ! Suc k \<le> 1" by auto
  have inc0: "0 \<le> (rs ! Suc k - rs ! k) * ps ! Suc k"
    using mono p by simp
  have "(rs ! Suc k - rs ! k) * ps ! Suc k \<le> (rs ! Suc k - rs ! k) * 1"
    using mono p by (intro mult_left_mono) simp_all
  then have inc1: "(rs ! Suc k - rs ! k) * ps ! Suc k \<le> rs ! Suc k - rs ! k" by simp
  show ?case
    unfolding step using ih inc0 inc1 mono by (simp add: ap_step_def)
qed

lemma calculate_ap_bounds:
  assumes "sorted recalls" and "\<forall>x\<in>set recalls. 0 \<le> x \<and> x \<le> 1"
    and "\<forall>x\<in>set precisions. 0 \<le> x \<and> x \<le> 1"
    and "length precisions = length recalls"
  shows "0 \<le> calculate_ap precisions recalls \<and> calculate_ap precisions recalls \<le> 1"
proof -
  let ?ps = "monotone_envelope ([0] @ precisions @ [0])"
  let ?rs = "[0] @ recalls @ [1]"
  have pb: "\<forall>x\<in>set ([0] @ precisions @ [0]). 0 \<le> x \<and> x \<le> 1"
    using assms(3) by auto
  have ps: "\<forall>x\<in>set ?ps. 0 \<le> x \<and> x \<le> 1" and lps: "length ?ps = length ?rs"
    using monotone_envelope_bounds [OF pb] assms(4) by simp_all
  have rs: "sorted ?rs"
    using assms(1,2) by (auto simp: sorted_append)
  have k: "length recalls + 1 < length ?rs" by simp
  from ap_sum_bounds [OF rs ps lps k]
  have "0 \<le> fold (ap_step ?ps ?rs) [1..<length ?rs] 0
        \<and> fold (ap_step ?ps ?rs) [1..<length ?rs] 0 \<le> ?rs ! (length recalls + 1) - ?rs ! 0"
    by simp
  moreover have "?rs ! (length recalls + 1) = 1"
    by (simp add: nth_append)
  ultimately show ?thesis
    by (simp add: calculate_ap_def Let_def)
qed

lemma cumsum_from_bounds:
  "sorted (cumsum_from acc xs) \<and> (\<forall>c\<in>set (cumsum_from acc xs). acc \<le> c \<and> c \<le> acc + sum_list xs)
   \<and> length (cumsum_from acc xs) = length xs"
proof (induction xs arbitrary: acc)
  case Nil
  then show ?case by simp
next
  case (Cons x xs)
  from Cons [of "acc + x"] show ?case by fastforce
qed

text \<open>
  For a positive threshold the value \<^verbatim>\<open>ap\<close> returned by
  \<^verbatim>\<open>evaluate_detection\<close> lies between 0 and 1.
\<close>

lemma evaluate_detection_ap_bounds:
  assumes "0 < iou_threshold"
    and "evaluate_detection predictions ground_truths iou_threshold = Inr r"
  shows "0 \<le> ap r \<and> ap r \<le> 1"
proof (cases "predictions = [] \<or> ground_truths = []")
  case True
  with assms(2) show ?thesis
    by (auto simp: evaluate_detection_def metrics_only_def split: if_splits)
next
  case False
  let ?n = "length ground_truths"
  from match_loop_returns [of "replicate ?n False" ground_truths iou_threshold
         "sorted_preds_of predictions" "[]" "[]"] False
  obtain m' tp' fp' where
    run: "match_loop iou_threshold ground_truths (sorted_preds_of predictions)
            (replicate ?n False, [], []) = Inr (m', tp', fp')"
    by auto
  have "sum_list tp' = length (filter (\<lambda>x. x) m') \<and> length m' = ?n"
    by (rule match_loop_positive_threshold [OF assms(1) _ run]) simp_all
  then have bound: "sum_list tp' \<le> ?n"
    by (metis length_filter_le)
  from match_loop_flags [OF run] have len: "length tp' = length fp'"
    by auto
  let ?precisions = "map (\<lambda>(t, f). real t / real (t + f)) (zip (cumsum tp') (cumsum fp'))"
  let ?recalls = "map (\<lambda>t. real t / real ?n) (cumsum tp')"
  have n: "0 < real ?n" using False by simp
  have cs: "sorted (cumsum tp')" "\<forall>c\<in>set (cumsum tp'). c \<le> sum_list tp'"
    "length (cumsum tp') = length tp'" "length (cumsum fp') = length fp'"
    using cumsum_from_bounds [of 0 tp'] cumsum_from_bounds [of 0 fp']
    by (simp_all add: cumsum_def)
  have r_sorted: "sorted ?recalls"
    using cs(1) n by (simp add: sorted_iff_nth_mono divide_right_mono)
  have r_bounds: "\<forall>x\<in>set ?recalls. 0 \<le> x \<and> x \<le> 1"
  proof
    fix x assume "x \<in> set ?recalls"
    then obtain c where c: "c \<in> set (cumsum tp')" "x = real c / real ?n" by auto
    with cs(2) bound have "c \<le> ?n" by fastforce
    with c n show "0 \<le> x \<and> x \<le> 1" by simp
  qed
  have p_bounds: "\<forall>x\<in>set ?precisions. 0 \<le> x \<and> x \<le> 1"
  proof
    fix x assume "x \<in> set ?precisions"
    then obtain t f where x: "x = real t / real (t + f)" by auto
    have "real t / real (t + f) \<le> 1"
    proof (cases "t + f = 0")
      case True
      then show ?thesis by simp
    next
      case False
      then have "0 < t + f" by simp
      then have "0 < real (t + f)" by (simp only: of_nat_0_less_iff)
      then show ?thesis by (simp only: pos_divide_le_eq) simp
    qed
    with x show "0 \<le> x \<and> x \<le> 1" by simp
  qed
  have lens: "length ?precisions = length ?recalls"
    using cs(3,4) len by simp
  from assms(2) False run have "ap r = calculate_ap ?precisions ?recalls"
    by (auto simp: evaluate_detection_def Let_def)
  with calculate_ap_bounds [OF r_sorted r_bounds p_bounds lens] show ?thesis by simp
qed

section \<open>The edit distance is the cost of a cheapest edit script\<close>

lemma edits_insert_all: "edits [] ys (length ys)"
  by (induction ys) (auto intro: edits.intros)

lemma edits_delete_all: "edits xs [] (length xs)"
  by (induction xs) (auto intro: edits.intros)

lemma editdistance_eval_attained: "edits xs ys (editdistance_eval xs ys)"
proof (induction xs ys rule: editdistance_eval.induct)
  case (1 ys)
  then show ?case by (simp add: edits_insert_all)
next
  case (2 x xs)
  then show ?case using edits_delete_all [of "x # xs"] by simp
next
  case (3 x xs y ys)
  let ?d = "editdistance_eval xs (y # ys)"
  let ?i = "editdistance_eval (x # xs) ys"
  let ?s = "editdistance_eval xs ys"
  have del: "edits (x # xs) (y # ys) (Suc ?d)"
    using "3.IH"(1) by (rule edits_delete)
  have ins: "edits (x # xs) (y # ys) (Suc ?i)"
    using "3.IH"(2) by (rule edits_insert)
  have sub: "edits (x # xs) (y # ys) (?s + (if x = y then 0 else 1))"
    using "3.IH"(3) by (auto intro: edits_keep edits_substitute)
  let ?m = "min (min (Suc ?d) (Suc ?i)) (?s + (if x = y then 0 else 1))"
  have "?m = Suc ?d \<or> ?m = Suc ?i \<or> ?m = ?s + (if x = y then 0 else 1)"
    unfolding min_def by presburger
  with del ins sub have "edits (x # xs) (y # ys) ?m"
    by metis
  then show ?case by simp
qed

lemma editdistance_eval_empty_right: "editdistance_eval xs [] = length xs"
  by (cases xs) simp_all

lemma editdistance_eval_delete:
  "editdistance_eval (x # xs) ys \<le> Suc (editdistance_eval xs ys)"
  by (cases ys) (simp_all add: editdistance_eval_empty_right min.coboundedI1)

lemma editdistance_eval_insert:
  "editdistance_eval xs (y # ys) \<le> Suc (editdistance_eval xs ys)"
  by (cases xs) (simp_all add: min.coboundedI1 min.coboundedI2)

lemma editdistance_eval_minimal: "edits xs ys n \<Longrightarrow> editdistance_eval xs ys \<le> n"
proof (induction rule: edits.induct)
  case edits_nil
  then show ?case by simp
next
  case (edits_keep xs ys n x)
  then show ?case by (simp add: min.coboundedI2)
next
  case (edits_substitute xs ys n x y)
  then show ?case by (simp add: min.coboundedI2)
next
  case (edits_delete xs ys n x)
  with editdistance_eval_delete [of x xs ys] show ?case by linarith
next
  case (edits_insert xs ys n y)
  with editdistance_eval_insert [of xs y ys] show ?case by linarith
qed

end
